theory Spec2Isabelle
  imports Complex_Main
begin

section \<open>Data-parallel training on multiple devices: the notebook's helper functions\<close>

text \<open>
  The notebook defines \<^verbatim>\<open>SGD\<close>, \<^verbatim>\<open>allreduce\<close>, \<^verbatim>\<open>split_and_load\<close> and
  \<^verbatim>\<open>train_batch\<close> on top of the NDArray type of its tensor library. The functions
  are embedded below; the library's arrays and the few array primitives the functions
  call are modelled first.
\<close>

subsection \<open>Errors\<close>

text \<open>
  The Python exceptions the embedded code can raise. \<open>MXNetError\<close> is what the tensor
  library raises on operands it rejects.
\<close>

datatype error =
  AssertionError | ValueError | ZeroDivisionError | IndexError | TypeError | MXNetError

subsection \<open>Arrays\<close>

text \<open>
  A device (\<^verbatim>\<open>cpu(i)\<close>, \<^verbatim>\<open>gpu(i)\<close>), and an NDArray: the device it lives on
  (\<^verbatim>\<open>.context\<close>), its shape (\<^verbatim>\<open>.shape\<close>), its elements in row-major order, and
  the reference to its gradient buffer (\<^verbatim>\<open>.grad\<close>, \<open>None\<close> until
  \<^verbatim>\<open>attach_grad\<close> is called). Arrays that the code updates in place live in a
  heap and are referred to by address.
\<close>

datatype device = cpu nat | gpu nat

type_synonym addr = nat

record 'a ndarray =
  ctx :: device
  shape :: "nat list"
  elems :: "'a list"
  grad :: "addr option"

type_synonym 'a heap = "addr \<Rightarrow> 'a ndarray"

text \<open>An array is well formed when it holds as many elements as its shape says.\<close>

definition wf_ndarray :: "'a ndarray \<Rightarrow> bool" where
  "wf_ndarray x = (length (elems x) = prod_list (shape x))"

text \<open>
  Row \<open>j\<close> of an array (its \<open>j\<close>-th slice along axis 0, flattened), and the list of
  all its rows.
\<close>

definition row_size :: "'a ndarray \<Rightarrow> nat" where
  "row_size x = prod_list (tl (shape x))"

definition row :: "'a ndarray \<Rightarrow> nat \<Rightarrow> 'a list" where
  "row x j = take (row_size x) (drop (j * row_size x) (elems x))"

definition rows :: "'a ndarray \<Rightarrow> 'a list list" where
  "rows x = map (row x) [0..<hd (shape x)]"

subsection \<open>Python and library primitives\<close>

text \<open>\<^verbatim>\<open>xs[i]\<close> for a non-negative index.\<close>

definition getitem :: "'b list \<Rightarrow> nat \<Rightarrow> error + 'b" where
  "getitem xs i = (if i < length xs then Inr (xs ! i) else Inl IndexError)"

text \<open>
  \<^verbatim>\<open>range(start, stop, step)\<close> for non-negative arguments, as a list. A zero step
  raises \<^verbatim>\<open>ValueError\<close>.
\<close>

definition range3 :: "nat \<Rightarrow> nat \<Rightarrow> nat \<Rightarrow> error + nat list" where
  "range3 start stop step =
     (if step = 0 then Inl ValueError
      else Inr (map (\<lambda>j. start + j * step) [0..<(stop - start + step - 1) div step]))"

text \<open>\<^verbatim>\<open>range(start, stop)\<close>.\<close>

definition range2 :: "nat \<Rightarrow> nat \<Rightarrow> nat list" where
  "range2 start stop = [start..<stop]"

text \<open>
  A \<^verbatim>\<open>for\<close> loop over a list whose body may raise: the first exception ends the
  loop. \<open>comprehension\<close> is the list comprehension \<^verbatim>\<open>[f(i) for i in xs]\<close>.
\<close>

fun for_each :: "'i list \<Rightarrow> ('i \<Rightarrow> 's \<Rightarrow> error + 's) \<Rightarrow> 's \<Rightarrow> error + 's" where
  "for_each [] body s = Inr s"
| "for_each (i # js) body s =
     (case body i s of Inl e \<Rightarrow> Inl e | Inr s' \<Rightarrow> for_each js body s')"

fun comprehension :: "('i \<Rightarrow> error + 'b) \<Rightarrow> 'i list \<Rightarrow> error + 'b list" where
  "comprehension f [] = Inr []"
| "comprehension f (i # js) =
     (case f i of Inl e \<Rightarrow> Inl e
      | Inr y \<Rightarrow> (case comprehension f js of Inl e \<Rightarrow> Inl e | Inr ys \<Rightarrow> Inr (y # ys)))"

text \<open>
  \<^verbatim>\<open>data[a:b]\<close> on an NDArray: rows \<open>a\<close> up to \<open>b - 1\<close> along axis 0. The library
  rejects bounds outside \<open>0 \<le> a \<le> b \<le> shape[0]\<close>. The slice is a new array
  object on the same device, without a gradient buffer.
\<close>

definition slice :: "'a ndarray \<Rightarrow> nat \<Rightarrow> nat \<Rightarrow> error + 'a ndarray" where
  "slice x a b =
     (case shape x of
        [] \<Rightarrow> Inl IndexError
      | n # rest \<Rightarrow>
          if a \<le> b \<and> b \<le> n
          then Inr \<lparr>ctx = ctx x, shape = (b - a) # rest,
                    elems = drop (a * prod_list rest) (take (b * prod_list rest) (elems x)),
                    grad = None\<rparr>
          else Inl MXNetError)"

text \<open>\<^verbatim>\<open>x.as_in_context(c)\<close>: the array on device \<open>c\<close>.\<close>

definition as_in_context :: "'a ndarray \<Rightarrow> device \<Rightarrow> 'a ndarray" where
  "as_in_context x c = x\<lparr>ctx := c\<rparr>"

subsection \<open>\<^verbatim>\<open>split_and_load\<close>\<close>

text \<open>
  \<^verbatim>\<open>
  def split_and_load(data, ctx):
      n, k = data.shape[0], len(ctx)
      assert (n//k)*k == n, '# examples is not divided by # devices'
      idx = list(range(0, n+1, n//k))
      return [data[idx[i]:idx[i+1]].as_in_context(ctx[i]) for i in range(k)]
  \<close>
  \<^verbatim>\<open>n//k\<close> raises \<^verbatim>\<open>ZeroDivisionError\<close> for an empty device list, and
  \<^verbatim>\<open>range\<close> raises \<^verbatim>\<open>ValueError\<close> when the step \<^verbatim>\<open>n//k\<close> is zero.
\<close>

definition shard :: "'a ndarray \<Rightarrow> nat list \<Rightarrow> device list \<Rightarrow> nat \<Rightarrow> error + 'a ndarray" where
  "shard data idx ctxs i =
     (case getitem idx i of Inl e \<Rightarrow> Inl e | Inr a \<Rightarrow>
     (case getitem idx (i + 1) of Inl e \<Rightarrow> Inl e | Inr b \<Rightarrow>
     (case slice data a b of Inl e \<Rightarrow> Inl e | Inr s \<Rightarrow>
     (case getitem ctxs i of Inl e \<Rightarrow> Inl e | Inr c \<Rightarrow>
      Inr (as_in_context s c)))))"

definition split_and_load :: "'a ndarray \<Rightarrow> device list \<Rightarrow> error + 'a ndarray list" where
  "split_and_load data ctxs =
     (case getitem (shape data) 0 of Inl e \<Rightarrow> Inl e | Inr n \<Rightarrow>
      (let k = length ctxs in
       if k = 0 then Inl ZeroDivisionError
       else if (n div k) * k \<noteq> n then Inl AssertionError
       else (case range3 0 (n + 1) (n div k) of Inl e \<Rightarrow> Inl e | Inr idx \<Rightarrow>
         comprehension (shard data idx ctxs) (range2 0 k))))"

text \<open>The shard that device \<open>i\<close> receives when every device gets \<open>s\<close> rows.\<close>

definition shard_of :: "'a ndarray \<Rightarrow> device list \<Rightarrow> nat \<Rightarrow> nat \<Rightarrow> 'a ndarray" where
  "shard_of data ctxs s i =
     \<lparr>ctx = ctxs ! i, shape = s # tl (shape data),
      elems = drop (i * s * row_size data) (take ((i + 1) * s * row_size data) (elems data)),
      grad = None\<rparr>"

subsection \<open>\<^verbatim>\<open>allreduce\<close>\<close>

text \<open>
  The library calls of \<^verbatim>\<open>allreduce\<close>. \<^verbatim>\<open>x.copyto(c)\<close> with a device \<open>c\<close> gives a
  new array on \<open>c\<close> with the elements of \<open>x\<close>. \<^verbatim>\<open>x[:] += y\<close> adds \<open>y\<close> to \<open>x\<close>
  elementwise and in place; the operands must have the same shape and live on the same
  device (broadcasting of unequal shapes is not modelled: the library call is rejected).
  \<^verbatim>\<open>x.copyto(y)\<close> with an array \<open>y\<close> overwrites the elements of \<open>y\<close>, which keeps
  its device, shape and gradient buffer.
\<close>

definition copyto_ctx :: "'a ndarray \<Rightarrow> device \<Rightarrow> 'a ndarray" where
  "copyto_ctx x c = \<lparr>ctx = c, shape = shape x, elems = elems x, grad = None\<rparr>"

definition iadd :: "'a::plus ndarray \<Rightarrow> 'a ndarray \<Rightarrow> error + 'a ndarray" where
  "iadd x y =
     (if shape x = shape y \<and> ctx x = ctx y
      then Inr (x\<lparr>elems := map2 (+) (elems x) (elems y)\<rparr>)
      else Inl MXNetError)"

definition copyto :: "'a ndarray \<Rightarrow> 'a ndarray \<Rightarrow> error + 'a ndarray" where
  "copyto x y =
     (if shape x = shape y then Inr (y\<lparr>elems := elems x\<rparr>) else Inl MXNetError)"

text \<open>
  \<^verbatim>\<open>
  def allreduce(data):
      # sum on data[0].context, and then broadcast
      for i in range(1, len(data)):
          data[0][:] += data[i].copyto(data[0].context)
      for i in range(1, len(data)):
          data[0].copyto(data[i])
  \<close>
  \<open>data\<close> is a list of references to arrays in the heap. The two loop bodies:
\<close>

definition sum_step :: "addr list \<Rightarrow> nat \<Rightarrow> 'a::plus heap \<Rightarrow> error + 'a heap" where
  "sum_step data i h =
     (case getitem data 0 of Inl e \<Rightarrow> Inl e | Inr d0 \<Rightarrow>
     (case getitem data i of Inl e \<Rightarrow> Inl e | Inr di \<Rightarrow>
     (case iadd (h d0) (copyto_ctx (h di) (ctx (h d0))) of Inl e \<Rightarrow> Inl e | Inr x \<Rightarrow>
      Inr (h(d0 := x)))))"

definition bcast_step :: "addr list \<Rightarrow> nat \<Rightarrow> 'a heap \<Rightarrow> error + 'a heap" where
  "bcast_step data i h =
     (case getitem data 0 of Inl e \<Rightarrow> Inl e | Inr d0 \<Rightarrow>
     (case getitem data i of Inl e \<Rightarrow> Inl e | Inr di \<Rightarrow>
     (case copyto (h d0) (h di) of Inl e \<Rightarrow> Inl e | Inr y \<Rightarrow>
      Inr (h(di := y)))))"

definition allreduce :: "'a::plus heap \<Rightarrow> addr list \<Rightarrow> error + 'a heap" where
  "allreduce h data =
     (case for_each (range2 1 (length data)) (sum_step data) h of
        Inl e \<Rightarrow> Inl e
      | Inr h1 \<Rightarrow> for_each (range2 1 (length data)) (bcast_step data) h1)"

text \<open>
  What the properties below compare \<^verbatim>\<open>allreduce\<close> with: the elementwise sum of a list of
  equally long element lists in exact arithmetic, and the sum accumulated in list order
  with whatever addition the element type has.
\<close>

definition elementwise_sum :: "nat \<Rightarrow> ('a::comm_monoid_add) list list \<Rightarrow> 'a list" where
  "elementwise_sum n vs = map (\<lambda>j. sum_list (map (\<lambda>v. v ! j) vs)) [0..<n]"

definition sum_in_order :: "('a::plus) list \<Rightarrow> 'a list list \<Rightarrow> 'a list" where
  "sum_in_order v vs = foldl (\<lambda>acc w. map2 (+) acc w) v vs"

text \<open>
  Symbolic elements: addition only builds the term, so the elements of a result show
  the order in which the summands were added.
\<close>

datatype sym = Leaf nat | Add sym sym

instantiation sym :: plus
begin

definition plus_sym :: "sym \<Rightarrow> sym \<Rightarrow> sym" where
  "plus_sym = Add"

instance ..

end

subsection \<open>\<^verbatim>\<open>SGD\<close>\<close>

text \<open>
  The library calls of \<^verbatim>\<open>SGD\<close>: \<^verbatim>\<open>lr * x\<close> multiplies every element by the
  number \<open>lr\<close>; \<^verbatim>\<open>x - y\<close> subtracts elementwise and, like \<^verbatim>\<open>+=\<close>, needs
  operands of one shape on one device; both give a new array. \<^verbatim>\<open>p[:] = t\<close> copies
  \<open>t\<close> into \<open>p\<close>, which is \<^verbatim>\<open>t.copyto(p)\<close>.
\<close>

definition scale :: "'a::times \<Rightarrow> 'a ndarray \<Rightarrow> 'a ndarray" where
  "scale lr x = \<lparr>ctx = ctx x, shape = shape x, elems = map (\<lambda>v. lr * v) (elems x), grad = None\<rparr>"

definition sub :: "'a::minus ndarray \<Rightarrow> 'a ndarray \<Rightarrow> error + 'a ndarray" where
  "sub x y =
     (if shape x = shape y \<and> ctx x = ctx y
      then Inr \<lparr>ctx = ctx x, shape = shape x, elems = map2 (-) (elems x) (elems y), grad = None\<rparr>
      else Inl MXNetError)"

text \<open>
  \<^verbatim>\<open>
  def SGD(params, lr):
      for p in params:
          p[:] = p - lr * p.grad
  \<close>
  \<^verbatim>\<open>p.grad\<close> is \<^verbatim>\<open>None\<close> for an array without gradient buffer, and
  \<^verbatim>\<open>lr * None\<close> raises \<^verbatim>\<open>TypeError\<close>. \<open>sgd_step\<close> is the loop body.
\<close>

definition sgd_step :: "'a::{times,minus} \<Rightarrow> addr \<Rightarrow> 'a heap \<Rightarrow> error + 'a heap" where
  "sgd_step lr p h =
     (case grad (h p) of None \<Rightarrow> Inl TypeError | Some g \<Rightarrow>
     (case sub (h p) (scale lr (h g)) of Inl e \<Rightarrow> Inl e | Inr t \<Rightarrow>
     (case copyto t (h p) of Inl e \<Rightarrow> Inl e | Inr x \<Rightarrow>
      Inr (h(p := x)))))"

definition SGD :: "addr list \<Rightarrow> 'a::{times,minus} \<Rightarrow> 'a heap \<Rightarrow> error + 'a heap" where
  "SGD params lr h = for_each params (sgd_step lr) h"

text \<open>
  The array that one step of \<^verbatim>\<open>SGD\<close> with rate \<open>lr\<close> leaves at address \<open>p\<close>:
  every element \<open>w\<close> of \<open>p\<close> becomes \<open>w - lr * g\<close> for the element \<open>g\<close> of the
  gradient buffer at the same position.
\<close>

definition descended :: "'a::{times,minus} \<Rightarrow> 'a heap \<Rightarrow> addr \<Rightarrow> 'a ndarray" where
  "descended lr h p =
     (case grad (h p) of
        None \<Rightarrow> h p
      | Some g \<Rightarrow> (h p)\<lparr>elems := map2 (\<lambda>w d. w - lr * d) (elems (h p)) (elems (h g))\<rparr>)"

subsection \<open>\<^verbatim>\<open>train_batch\<close>\<close>

text \<open>
  \<^verbatim>\<open>
  def train_batch(batch, params, ctx, lr):
      # split the data batch and load them on GPUs
      data = split_and_load(batch.data[0], ctx)
      label = split_and_load(batch.label[0], ctx)
      # run forward on each GPU
      with gluon.autograd.record():
          losses = [loss(lenet(X, W), Y)
                    for X, Y, W in zip(data, label, params)]
      # run backward on each gpu
      for l in losses:
          l.backward()
      # aggregate gradient over GPUs
      for i in range(len(params[0])):
          allreduce([params[c][i].grad for c in range(len(ctx))])
      # update parameters with SGD on each GPU
      for p in params:
          SGD(p, lr/batch.data[0].shape[0])
  \<close>
  \<open>params\<close> holds, per device, the addresses of that device's parameter arrays. The
  forward and backward passes belong to the library's automatic differentiation; they
  are the parameter \<open>fwd_bwd\<close>, which gets the shards with the parameter lists they
  are zipped with and returns the heap with the gradient buffers filled. The function
  is split at the comments of the source: \<open>train_batch_backward\<close> runs up to the
  backward pass, \<open>train_batch_allreduce\<close> up to the aggregation of the gradients, and
  \<open>train_batch\<close> is the whole step.
\<close>

record 'a databatch =
  batch_data :: "'a ndarray list"
  batch_label :: "'a ndarray list"

type_synonym 'a autograd =
  "('a ndarray \<times> 'a ndarray \<times> addr list) list \<Rightarrow> 'a heap \<Rightarrow> 'a heap"

definition train_batch_backward ::
  "'a autograd \<Rightarrow> 'a databatch \<Rightarrow> addr list list \<Rightarrow> device list \<Rightarrow> 'a heap \<Rightarrow> error + 'a heap" where
  "train_batch_backward fwd_bwd batch params ctxs h =
     (case getitem (batch_data batch) 0 of Inl e \<Rightarrow> Inl e | Inr X \<Rightarrow>
     (case split_and_load X ctxs of Inl e \<Rightarrow> Inl e | Inr data \<Rightarrow>
     (case getitem (batch_label batch) 0 of Inl e \<Rightarrow> Inl e | Inr Y \<Rightarrow>
     (case split_and_load Y ctxs of Inl e \<Rightarrow> Inl e | Inr label \<Rightarrow>
      Inr (fwd_bwd (zip data (zip label params)) h)))))"

text \<open>
  \<^verbatim>\<open>[params[c][i].grad for c in range(len(ctx))]\<close>. A parameter without gradient
  buffer contributes \<^verbatim>\<open>None\<close>, on which the step raises (in \<^verbatim>\<open>allreduce\<close> or, for
  a single device, in \<^verbatim>\<open>SGD\<close>); the model raises where the buffer is read.
\<close>

definition grad_of :: "'a heap \<Rightarrow> addr list list \<Rightarrow> nat \<Rightarrow> nat \<Rightarrow> error + addr" where
  "grad_of h params i c =
     (case getitem params c of Inl e \<Rightarrow> Inl e | Inr pc \<Rightarrow>
     (case getitem pc i of Inl e \<Rightarrow> Inl e | Inr p \<Rightarrow>
     (case grad (h p) of None \<Rightarrow> Inl TypeError | Some g \<Rightarrow> Inr g)))"

definition allreduce_param :: "addr list list \<Rightarrow> device list \<Rightarrow> nat \<Rightarrow> 'a::plus heap \<Rightarrow> error + 'a heap" where
  "allreduce_param params ctxs i h =
     (case comprehension (grad_of h params i) (range2 0 (length ctxs)) of
        Inl e \<Rightarrow> Inl e
      | Inr gs \<Rightarrow> allreduce h gs)"

definition train_batch_allreduce ::
  "'a::plus autograd \<Rightarrow> 'a databatch \<Rightarrow> addr list list \<Rightarrow> device list \<Rightarrow> 'a heap \<Rightarrow> error + 'a heap" where
  "train_batch_allreduce fwd_bwd batch params ctxs h =
     (case train_batch_backward fwd_bwd batch params ctxs h of Inl e \<Rightarrow> Inl e | Inr h1 \<Rightarrow>
     (case getitem params 0 of Inl e \<Rightarrow> Inl e | Inr p0 \<Rightarrow>
      for_each (range2 0 (length p0)) (allreduce_param params ctxs) h1))"

text \<open>
  \<^verbatim>\<open>lr/batch.data[0].shape[0]\<close> is evaluated for every \<open>p\<close>; Python's division
  raises \<^verbatim>\<open>ZeroDivisionError\<close> for an empty batch.
\<close>

definition update_step :: "'a::field databatch \<Rightarrow> 'a \<Rightarrow> addr list \<Rightarrow> 'a heap \<Rightarrow> error + 'a heap" where
  "update_step batch lr p h =
     (case getitem (batch_data batch) 0 of Inl e \<Rightarrow> Inl e | Inr X \<Rightarrow>
     (case getitem (shape X) 0 of Inl e \<Rightarrow> Inl e | Inr n \<Rightarrow>
      if n = 0 then Inl ZeroDivisionError else SGD p (lr / of_nat n) h))"

definition train_batch ::
  "'a::field autograd \<Rightarrow> 'a databatch \<Rightarrow> addr list list \<Rightarrow> device list \<Rightarrow> 'a \<Rightarrow> 'a heap \<Rightarrow> error + 'a heap" where
  "train_batch fwd_bwd batch params ctxs lr h =
     (case train_batch_allreduce fwd_bwd batch params ctxs h of Inl e \<Rightarrow> Inl e | Inr h2 \<Rightarrow>
      for_each params (update_step batch lr) h2)"

text \<open>
  The state the update of \<^verbatim>\<open>train_batch\<close> expects: the parameter arrays of all
  devices are different objects, and each has a gradient buffer of its own shape on its
  own device that is not itself a parameter array.
\<close>

definition wf_params :: "'a heap \<Rightarrow> addr list \<Rightarrow> bool" where
  "wf_params h ps =
     (distinct ps \<and>
      list_all (\<lambda>p. case grad (h p) of
                      None \<Rightarrow> False
                    | Some g \<Rightarrow> g \<notin> set ps \<and> shape (h g) = shape (h p) \<and> ctx (h g) = ctx (h p)) ps)"

subsection \<open>Concrete inputs\<close>

text \<open>
  The inputs of the notebook's own demonstrations, and a few more that the properties
  below are instantiated with: the batch \<^verbatim>\<open>nd.arange(16).reshape((4,4))\<close>, an empty
  batch of the same row shape, the two devices, and the heap with the two arrays
  \<^verbatim>\<open>nd.ones((1,2), ctx=gpu(i))*(i+1)\<close> at addresses 0 and 1.
\<close>

definition batch44 :: "real ndarray" where
  "batch44 = \<lparr>ctx = cpu 0, shape = [4, 4],
              elems = [0, 1, 2, 3, 4, 5, 6, 7, 8, 9, 10, 11, 12, 13, 14, 15], grad = None\<rparr>"

definition empty_batch :: "real ndarray" where
  "empty_batch = \<lparr>ctx = cpu 0, shape = [0, 4], elems = [], grad = None\<rparr>"

definition two_gpus :: "device list" where
  "two_gpus = [gpu 0, gpu 1]"

definition unused :: "'a ndarray" where
  "unused = \<lparr>ctx = cpu 0, shape = [0], elems = [], grad = None\<rparr>"

definition ones_twos :: "real heap" where
  "ones_twos = (\<lambda>a. unused)
     (0 := \<lparr>ctx = gpu 0, shape = [1, 2], elems = [1, 1], grad = None\<rparr>,
      1 := \<lparr>ctx = gpu 1, shape = [1, 2], elems = [2, 2], grad = None\<rparr>)"

text \<open>A heap of one-element symbolic arrays: the array at address \<open>a\<close> holds \<open>Leaf a\<close>.\<close>

definition leaves :: "sym heap" where
  "leaves = (\<lambda>a. \<lparr>ctx = gpu a, shape = [1], elems = [Leaf a], grad = None\<rparr>)"

text \<open>
  Two replicas of one parameter (addresses 0 and 1) with their gradient buffers
  (addresses 2 and 3), as they are after the backward pass and after the aggregation of
  the gradients, and a batch of four samples.
\<close>

definition replicas :: "real heap" where
  "replicas = (\<lambda>a. unused)
     (0 := \<lparr>ctx = gpu 0, shape = [2], elems = [10, 20], grad = Some 2\<rparr>,
      1 := \<lparr>ctx = gpu 1, shape = [2], elems = [10, 20], grad = Some 3\<rparr>,
      2 := \<lparr>ctx = gpu 0, shape = [2], elems = [1, 1], grad = None\<rparr>,
      3 := \<lparr>ctx = gpu 1, shape = [2], elems = [2, 2], grad = None\<rparr>)"

definition replicas_synced :: "real heap" where
  "replicas_synced = (\<lambda>a. unused)
     (0 := \<lparr>ctx = gpu 0, shape = [2], elems = [10, 20], grad = Some 2\<rparr>,
      1 := \<lparr>ctx = gpu 1, shape = [2], elems = [10, 20], grad = Some 3\<rparr>,
      2 := \<lparr>ctx = gpu 0, shape = [2], elems = [3, 3], grad = None\<rparr>,
      3 := \<lparr>ctx = gpu 1, shape = [2], elems = [3, 3], grad = None\<rparr>)"

definition minibatch :: "real databatch" where
  "minibatch =
     \<lparr>batch_data = [\<lparr>ctx = cpu 0, shape = [4, 1], elems = [1, 2, 3, 4], grad = None\<rparr>],
      batch_label = [\<lparr>ctx = cpu 0, shape = [4], elems = [0, 1, 0, 1], grad = None\<rparr>]\<rparr>"

section \<open>Properties\<close>

subsection \<open>Splitting a batch\<close>

lemma range3_div:
  assumes "0 < s"
  shows "range3 0 (s * k + 1) s = Inr (map (\<lambda>j. j * s) [0..<k + 1])"
proof -
  have "(s * k + 1 - 0 + s - 1) div s = k + 1"
    using assms by simp
  then show ?thesis using assms by (simp add: range3_def)
qed

lemma comprehension_map:
  "(\<And>i. i \<in> set xs \<Longrightarrow> f i = Inr (g i)) \<Longrightarrow> comprehension f xs = Inr (map g xs)"
  by (induction xs) auto

lemma concat_chunks:
  "concat (map (\<lambda>i. drop (i * c) (take ((i + 1) * c) xs)) [0..<k]) = take (k * c) xs"
proof (induction k)
  case 0
  then show ?case by simp
next
  case (Suc k)
  have "take (k * c) (take ((k + 1) * c) xs) = take (k * c) xs"
    by (simp add: min_def)
  then have "take (k * c) xs @ drop (k * c) (take ((k + 1) * c) xs) = take ((k + 1) * c) xs"
    using append_take_drop_id[of "k * c" "take ((k + 1) * c) xs"] by simp
  with Suc show ?case by simp
qed

lemma concat_upt_chunks:
  "concat (map (\<lambda>i. [i * s..<(i + 1) * s]) [0..<k]) = [0..<k * s]"
proof (induction k)
  case 0
  then show ?case by simp
next
  case (Suc k)
  have "[0..<k * s + s] = [0..<k * s] @ [k * s..<k * s + s]"
    by (rule upt_add_eq_append) simp
  with Suc show ?case by (simp add: add.commute)
qed

lemma take_drop_take:
  "m + r \<le> M \<Longrightarrow> take r (drop m (take M xs)) = take r (drop m xs)"
  by (simp add: drop_take min_def)

lemma shard_eq:
  assumes "shape data = n # rest" "n = s * k" "i < k" "k = length ctxs"
    and "length idx = k + 1" "\<And>j. j \<le> k \<Longrightarrow> idx ! j = j * s"
  shows "shard data idx ctxs i = Inr (shard_of data ctxs s i)"
proof -
  have a: "getitem idx i = Inr (i * s)"
    using assms(3,5,6) by (simp add: getitem_def)
  have b: "getitem idx (i + 1) = Inr ((i + 1) * s)"
    using assms(3,5) assms(6)[of "i + 1"] by (simp add: getitem_def)
  have "i + 1 \<le> k" using assms(3) by simp
  then have "(i + 1) * s \<le> k * s" by (rule mult_le_mono1)
  then have "(i + 1) * s \<le> n" using assms(2) by (simp add: mult.commute)
  then have c: "slice data (i * s) ((i + 1) * s) =
      Inr \<lparr>ctx = ctx data, shape = s # rest,
           elems = drop (i * s * prod_list rest) (take ((i + 1) * s * prod_list rest) (elems data)),
           grad = None\<rparr>"
    using assms(1) by (simp add: slice_def)
  have d: "getitem ctxs i = Inr (ctxs ! i)"
    using assms(3,4) by (simp add: getitem_def)
  have "shard data idx ctxs i =
      Inr (as_in_context \<lparr>ctx = ctx data, shape = s # rest,
           elems = drop (i * s * prod_list rest) (take ((i + 1) * s * prod_list rest) (elems data)),
           grad = None\<rparr> (ctxs ! i))"
    by (simp only: shard_def a b c d sum.case)
  then show ?thesis
    using assms(1) by (simp add: as_in_context_def shard_of_def row_size_def)
qed

lemma split_and_load_eq:
  assumes "shape data = n # rest" "ctxs \<noteq> []" "length ctxs dvd n" "0 < n"
  shows "split_and_load data ctxs =
    Inr (map (shard_of data ctxs (n div length ctxs)) [0..<length ctxs])"
proof -
  define k where "k = length ctxs"
  define s where "s = n div k"
  define idx where "idx = map (\<lambda>j. j * s) [0..<k + 1]"
  have k: "0 < k" using assms(2) by (simp add: k_def)
  have n: "n = s * k" using assms(3) by (simp add: s_def k_def)
  have s: "0 < s" using n assms(4) by (cases s) auto
  have r: "range3 0 (n + 1) s = Inr idx"
    using range3_div[OF s, of k] n by (simp add: idx_def)
  have len: "length idx = k + 1" by (simp add: idx_def)
  have nth: "idx ! j = j * s" if "j \<le> k" for j
    using that unfolding idx_def by (subst nth_map_upt) simp_all
  have "comprehension (shard data idx ctxs) (range2 0 k)
      = Inr (map (shard_of data ctxs s) (range2 0 k))"
    by (rule comprehension_map) (simp add: range2_def shard_eq[OF assms(1) n _ k_def len nth])
  moreover have "getitem (shape data) 0 = Inr n"
    using assms(1) by (simp add: getitem_def)
  moreover have "s * k = n" using n by simp
  ultimately show ?thesis
    using k r
    by (simp add: split_and_load_def range2_def Let_def flip: k_def s_def)
qed

lemma row_shard_of:
  assumes "j < s"
  shows "row (shard_of data ctxs s i) j = row data (i * s + j)"
proof -
  let ?r = "row_size data"
  have "(i * s + j) * ?r + ?r \<le> (i + 1) * s * ?r"
  proof -
    have "(i * s + j) + 1 \<le> (i + 1) * s" using assms by simp
    then have "((i * s + j) + 1) * ?r \<le> (i + 1) * s * ?r" by (rule mult_le_mono1)
    then show ?thesis by (simp add: algebra_simps)
  qed
  then have "take ?r (drop ((i * s + j) * ?r) (take ((i + 1) * s * ?r) (elems data)))
      = take ?r (drop ((i * s + j) * ?r) (elems data))"
    by (rule take_drop_take)
  then show ?thesis
    by (simp add: row_def shard_of_def row_size_def algebra_simps)
qed

lemma rows_shard_of:
  "rows (shard_of data ctxs s i) = map (row data) [i * s..<(i + 1) * s]"
proof -
  have "map (row (shard_of data ctxs s i)) [0..<s] = map (\<lambda>j. row data (i * s + j)) [0..<s]"
    by (rule map_cong) (simp_all add: row_shard_of)
  also have "\<dots> = map (row data) (map (\<lambda>j. i * s + j) [0..<s])" by simp
  also have "map (\<lambda>j. i * s + j) [0..<s] = [i * s..<(i + 1) * s]"
    by (simp add: map_add_upt add.commute)
  finally show ?thesis by (simp add: rows_def shard_of_def)
qed

lemma wf_shard_of:
  assumes "wf_ndarray data" "shape data = n # rest" "n = s * k" "i < k"
  shows "wf_ndarray (shard_of data ctxs s i)"
proof -
  let ?r = "row_size data"
  have len: "length (elems data) = s * k * ?r"
    using assms(1-3) by (simp add: wf_ndarray_def row_size_def)
  have "i + 1 \<le> k" using assms(4) by simp
  then have "(i + 1) * s \<le> k * s" by (rule mult_le_mono1)
  then have "(i + 1) * s * ?r \<le> k * s * ?r" by (rule mult_le_mono1)
  then have "(i + 1) * s * ?r \<le> s * k * ?r" by (simp add: mult.commute)
  then have "length (take ((i + 1) * s * ?r) (elems data)) = (i + 1) * s * ?r"
    using len by simp
  then show ?thesis
    using assms(2) by (simp add: wf_ndarray_def shard_of_def row_size_def algebra_simps)
qed

lemma concat_elems_shards:
  assumes "wf_ndarray data" "shape data = n # rest" "n = s * k"
  shows "concat (map elems (map (shard_of data ctxs s) [0..<k])) = elems data"
proof -
  let ?r = "row_size data"
  have "concat (map elems (map (shard_of data ctxs s) [0..<k]))
      = concat (map (\<lambda>i. drop (i * (s * ?r)) (take ((i + 1) * (s * ?r)) (elems data))) [0..<k])"
    by (simp add: shard_of_def comp_def algebra_simps)
  also have "\<dots> = take (k * (s * ?r)) (elems data)" by (rule concat_chunks)
  also have "\<dots> = elems data"
    using assms by (simp add: wf_ndarray_def row_size_def algebra_simps)
  finally show ?thesis .
qed

lemma concat_rows_shards:
  assumes "shape data = n # rest" "n = s * k"
  shows "concat (map rows (map (shard_of data ctxs s) [0..<k])) = rows data"
proof -
  have "concat (map rows (map (shard_of data ctxs s) [0..<k]))
      = concat (map (\<lambda>i. map (row data) [i * s..<(i + 1) * s]) [0..<k])"
    by (simp add: rows_shard_of comp_def)
  also have "\<dots> = map (row data) (concat (map (\<lambda>i. [i * s..<(i + 1) * s]) [0..<k]))"
    by (simp add: map_concat comp_def)
  also have "\<dots> = map (row data) [0..<k * s]" by (simp only: concat_upt_chunks)
  also have "\<dots> = rows data" using assms by (simp add: rows_def mult.commute)
  finally show ?thesis .
qed

subsection \<open>The two loops of \<^verbatim>\<open>allreduce\<close>\<close>

lemma nth_neq_0:
  assumes "distinct data" "0 < j" "j < length data"
  shows "data ! j \<noteq> data ! 0"
proof -
  have "0 < length data" using assms(2,3) by (cases data) auto
  then show ?thesis
    using assms nth_eq_iff_index_eq[of data j 0] by simp
qed

lemma same_shape_nth:
  assumes "\<forall>a\<in>set data. shape (h a) = sh" "j < length data"
  shows "shape (h (data ! j)) = shape (h (data ! 0))"
proof -
  have "0 < length data" using assms(2) by (cases data) auto
  then have "data ! 0 \<in> set data" "data ! j \<in> set data" using assms(2) by simp_all
  then show ?thesis using assms(1) by simp
qed

lemma sum_step_eq:
  assumes "0 < j" "j < length data" "distinct data"
    and "shape (h (data ! j)) = shape (h (data ! 0))"
  shows "sum_step data j h =
    Inr (h(data ! 0 := (h (data ! 0))\<lparr>elems := map2 (+) (elems (h (data ! 0))) (elems (h (data ! j)))\<rparr>))"
proof -
  have "0 < length data" using assms(1,2) by (cases data) auto
  then show ?thesis
    using assms by (simp add: sum_step_def getitem_def iadd_def copyto_ctx_def)
qed

lemma sum_loop_eq:
  assumes "distinct data" "\<forall>j\<in>set js. 0 < j \<and> j < length data"
    and "\<forall>a\<in>set data. shape (h a) = sh"
  shows "for_each js (sum_step data) h =
    Inr (h(data ! 0 := (h (data ! 0))\<lparr>elems :=
       sum_in_order (elems (h (data ! 0))) (map (\<lambda>j. elems (h (data ! j))) js)\<rparr>))"
  using assms
proof (induction js arbitrary: h)
  case Nil
  then show ?case by (simp add: sum_in_order_def)
next
  case (Cons j js)
  let ?d0 = "data ! 0"
  let ?h1 = "h(?d0 := (h ?d0)\<lparr>elems := map2 (+) (elems (h ?d0)) (elems (h (data ! j)))\<rparr>)"
  have j: "0 < j" "j < length data" using Cons.prems(2) by auto
  have sh: "shape (h (data ! j)) = shape (h ?d0)"
    using Cons.prems(3) j same_shape_nth[of data h sh j] by simp
  have step: "sum_step data j h = Inr ?h1"
    using sum_step_eq[OF j Cons.prems(1) sh] .
  have other: "?h1 (data ! i) = h (data ! i)" if "i \<in> set js" for i
  proof -
    have "0 < i" "i < length data" using Cons.prems(2) that by auto
    then have "data ! i \<noteq> ?d0"
      using Cons.prems(1) by (simp add: nth_neq_0)
    then show ?thesis by simp
  qed
  have shapes: "\<forall>a\<in>set data. shape (?h1 a) = sh"
    using Cons.prems(3) by simp
  have js: "\<forall>j\<in>set js. 0 < j \<and> j < length data" using Cons.prems(2) by simp
  have m: "map (\<lambda>j. elems (?h1 (data ! j))) js = map (\<lambda>j. elems (h (data ! j))) js"
    by (rule map_cong) (simp_all only: other)
  have "for_each (j # js) (sum_step data) h = for_each js (sum_step data) ?h1"
    by (simp only: for_each.simps step sum.case)
  also have "\<dots> = Inr (?h1(?d0 := (?h1 ?d0)\<lparr>elems :=
       sum_in_order (elems (?h1 ?d0)) (map (\<lambda>j. elems (?h1 (data ! j))) js)\<rparr>))"
    by (rule Cons.IH[OF Cons.prems(1) js shapes])
  also have "\<dots> = Inr (h(?d0 := (h ?d0)\<lparr>elems :=
       sum_in_order (elems (h ?d0)) (map (\<lambda>j. elems (h (data ! j))) (j # js))\<rparr>))"
    unfolding m by (simp add: sum_in_order_def)
  finally show ?case .
qed

lemma bcast_step_eq:
  assumes "j < length data" "data \<noteq> []"
    and "shape (h (data ! j)) = shape (h (data ! 0))"
  shows "bcast_step data j h =
    Inr (h(data ! j := (h (data ! j))\<lparr>elems := elems (h (data ! 0))\<rparr>))"
  using assms by (simp add: bcast_step_def getitem_def copyto_def)

lemma bcast_loop_eq:
  assumes "distinct data" "\<forall>j\<in>set js. 0 < j \<and> j < length data"
    and "\<forall>a\<in>set data. shape (h a) = sh"
  shows "for_each js (bcast_step data) h =
    Inr (\<lambda>a. if a \<in> (\<lambda>j. data ! j) ` set js then (h a)\<lparr>elems := elems (h (data ! 0))\<rparr> else h a)"
  using assms
proof (induction js arbitrary: h)
  case Nil
  then show ?case by simp
next
  case (Cons j js)
  let ?d0 = "data ! 0"
  let ?h1 = "h(data ! j := (h (data ! j))\<lparr>elems := elems (h ?d0)\<rparr>)"
  have j: "0 < j" "j < length data" using Cons.prems(2) by auto
  then have ne: "data \<noteq> []" by auto
  have sh: "shape (h (data ! j)) = shape (h ?d0)"
    using Cons.prems(3) j same_shape_nth[of data h sh j] by simp
  have step: "bcast_step data j h = Inr ?h1"
    using bcast_step_eq[OF j(2) ne sh] .
  have d0: "data ! j \<noteq> ?d0"
    using Cons.prems(1) j by (simp add: nth_neq_0)
  have shapes: "\<forall>a\<in>set data. shape (?h1 a) = sh"
    using Cons.prems(3) by simp
  have js: "\<forall>j\<in>set js. 0 < j \<and> j < length data" using Cons.prems(2) by simp
  have "for_each (j # js) (bcast_step data) h = for_each js (bcast_step data) ?h1"
    by (simp only: for_each.simps step sum.case)
  also have "\<dots> =
    Inr (\<lambda>a. if a \<in> (\<lambda>j. data ! j) ` set js then (?h1 a)\<lparr>elems := elems (?h1 ?d0)\<rparr> else ?h1 a)"
    by (rule Cons.IH[OF Cons.prems(1) js shapes])
  also have "\<dots> = Inr (\<lambda>a. if a \<in> (\<lambda>j. data ! j) ` set (j # js)
      then (h a)\<lparr>elems := elems (h ?d0)\<rparr> else h a)"
    using d0 by (auto simp: fun_eq_iff)
  finally show ?case .
qed

lemma allreduce_eq:
  assumes "distinct data" "\<forall>a\<in>set data. shape (h a) = sh"
  shows "allreduce h data =
    Inr (\<lambda>a. if a \<in> set data
             then (h a)\<lparr>elems := sum_in_order (elems (h (hd data))) (map (\<lambda>b. elems (h b)) (tl data))\<rparr>
             else h a)"
proof (cases data)
  case Nil
  then show ?thesis by (simp add: allreduce_def range2_def)
next
  case (Cons d0 ds)
  let ?js = "[1..<length data]"
  let ?S = "sum_in_order (elems (h d0)) (map (\<lambda>b. elems (h b)) ds)"
  let ?h1 = "h(d0 := (h d0)\<lparr>elems := ?S\<rparr>)"
  have ne: "data \<noteq> []" and d0: "data ! 0 = d0" "hd data = d0" "tl data = ds"
    using Cons by simp_all
  have js: "\<forall>j\<in>set ?js. 0 < j \<and> j < length data" by simp
  have "map (\<lambda>j. data ! j) ?js = tl data"
    using ne by (intro nth_equalityI) (simp_all add: nth_tl)
  then have m: "map (\<lambda>j. data ! j) ?js = ds"
    by (simp only: d0)
  have "map (\<lambda>j. elems (h (data ! j))) ?js = map (\<lambda>b. elems (h b)) (map (\<lambda>j. data ! j) ?js)"
    by (simp only: map_map comp_def)
  then have m2: "map (\<lambda>j. elems (h (data ! j))) ?js = map (\<lambda>b. elems (h b)) ds"
    by (simp only: m)
  have img: "(\<lambda>j. data ! j) ` set ?js = set ds"
  proof -
    have "set (map (\<lambda>j. data ! j) ?js) = set ds" by (simp only: m)
    then show ?thesis by (simp only: set_map)
  qed
  have l1: "for_each ?js (sum_step data) h = Inr ?h1"
    using sum_loop_eq[OF assms(1) js assms(2)] by (simp only: d0 m2)
  have shapes: "\<forall>a\<in>set data. shape (?h1 a) = sh" using assms(2) by simp
  have l2: "for_each ?js (bcast_step data) ?h1 =
      Inr (\<lambda>a. if a \<in> set ds then (?h1 a)\<lparr>elems := elems (?h1 d0)\<rparr> else ?h1 a)"
    using bcast_loop_eq[OF assms(1) js shapes] by (simp only: d0 img)
  have "allreduce h data = for_each ?js (bcast_step data) ?h1"
    by (simp only: allreduce_def range2_def l1 sum.case)
  also have "\<dots> = Inr (\<lambda>a. if a \<in> set data then (h a)\<lparr>elems := ?S\<rparr> else h a)"
    unfolding l2 using Cons by (auto simp: fun_eq_iff)
  finally show ?thesis by (simp only: d0)
qed

lemma sum_in_order_nth:
  fixes v :: "'a::comm_monoid_add list"
  assumes "length v = n" "\<forall>w\<in>set vs. length w = n"
  shows "sum_in_order v vs = map (\<lambda>j. v ! j + sum_list (map (\<lambda>w. w ! j) vs)) [0..<n]"
  using assms
proof (induction vs arbitrary: v)
  case Nil
  have "map (\<lambda>j. v ! j) [0..<length v] = v" by (rule map_nth)
  then show ?case using Nil(1) by (simp add: sum_in_order_def)
next
  case (Cons w vs)
  have w: "length w = n" and vs: "\<forall>w\<in>set vs. length w = n" using Cons.prems(2) by simp_all
  have len: "length (map2 (+) v w) = n" using Cons.prems(1) w by simp
  have "sum_in_order v (w # vs) = sum_in_order (map2 (+) v w) vs"
    by (simp add: sum_in_order_def)
  also have "\<dots> = map (\<lambda>j. map2 (+) v w ! j + sum_list (map (\<lambda>w. w ! j) vs)) [0..<n]"
    by (rule Cons.IH[OF len vs])
  also have "\<dots> = map (\<lambda>j. v ! j + sum_list (map (\<lambda>w. w ! j) (w # vs))) [0..<n]"
    using Cons.prems(1) w by (simp add: add.assoc)
  finally show ?case .
qed

lemma sum_in_order_elementwise:
  fixes v :: "'a::comm_monoid_add list"
  assumes "length v = n" "\<forall>w\<in>set vs. length w = n"
  shows "sum_in_order v vs = elementwise_sum n (v # vs)"
  using sum_in_order_nth[OF assms] by (simp add: elementwise_sum_def)

subsection \<open>The update of the parameters\<close>

lemma for_each_append:
  "for_each (xs @ ys) body s =
     (case for_each xs body s of Inl e \<Rightarrow> Inl e | Inr s' \<Rightarrow> for_each ys body s')"
  by (induction xs arbitrary: s) (auto split: sum.splits)

lemma for_each_concat:
  "for_each pss (\<lambda>ps. for_each ps body) s = for_each (concat pss) body s"
  by (induction pss arbitrary: s) (auto simp: for_each_append split: sum.splits)

lemma sgd_step_eq:
  assumes "grad (h p) = Some g" "shape (h g) = shape (h p)" "ctx (h g) = ctx (h p)"
  shows "sgd_step lr p h = Inr (h(p := descended lr h p))"
proof -
  have "map2 (-) (elems (h p)) (map (\<lambda>v. lr * v) (elems (h g)))
      = map2 (\<lambda>w d. w - lr * d) (elems (h p)) (elems (h g))"
    by (auto simp: zip_map2)
  then show ?thesis
    using assms by (simp add: sgd_step_def sub_def scale_def copyto_def descended_def)
qed

lemma wf_params_Cons:
  assumes "wf_params h (p # ps)"
  obtains g where "grad (h p) = Some g" "g \<noteq> p" "g \<notin> set ps"
    "shape (h g) = shape (h p)" "ctx (h g) = ctx (h p)" "p \<notin> set ps"
  using assms by (auto simp: wf_params_def split: option.splits)

lemma wf_params_mem:
  assumes "wf_params h ps" "p \<in> set ps"
  obtains g where "grad (h p) = Some g" "g \<notin> set ps"
    "shape (h g) = shape (h p)" "ctx (h g) = ctx (h p)"
  using assms by (auto simp: wf_params_def list_all_iff split: option.splits)

lemma wf_params_step:
  assumes "wf_params h (p # ps)"
  shows "wf_params (h(p := descended lr h p)) ps"
proof -
  have d: "distinct ps" "p \<notin> set ps" using assms by (auto simp: wf_params_def)
  have "case grad ((h(p := descended lr h p)) q) of None \<Rightarrow> False
        | Some g \<Rightarrow> g \<notin> set ps \<and> shape ((h(p := descended lr h p)) g) = shape ((h(p := descended lr h p)) q)
            \<and> ctx ((h(p := descended lr h p)) g) = ctx ((h(p := descended lr h p)) q)"
    if "q \<in> set ps" for q
  proof -
    have "q \<in> set (p # ps)" using that by simp
    from wf_params_mem[OF assms this] obtain g where g: "grad (h q) = Some g" "g \<notin> set (p # ps)"
      "shape (h g) = shape (h q)" "ctx (h g) = ctx (h q)" by blast
    have "q \<noteq> p" using that d by auto
    moreover have "g \<noteq> p" "g \<notin> set ps" using g(2) by auto
    ultimately show ?thesis using g by simp
  qed
  then show ?thesis using d by (simp add: wf_params_def list_all_iff)
qed

lemma descended_step:
  assumes "wf_params h (p # ps)" "q \<in> set ps"
  shows "descended lr (h(p := descended lr h p)) q = descended lr h q"
proof -
  have "q \<in> set (p # ps)" using assms(2) by simp
  from wf_params_mem[OF assms(1) this] obtain g where g: "grad (h q) = Some g" "g \<notin> set (p # ps)"
    by blast
  have "p \<notin> set ps" using assms(1) by (auto simp: wf_params_def)
  then have "q \<noteq> p" using assms(2) by auto
  moreover have "g \<noteq> p" using g(2) by auto
  ultimately show ?thesis using g(1) by (simp add: descended_def)
qed

lemma sgd_loop_eq:
  assumes "wf_params h ps"
  shows "for_each ps (sgd_step lr) h =
    Inr (\<lambda>a. if a \<in> set ps then descended lr h a else h a)"
  using assms
proof (induction ps arbitrary: h)
  case Nil
  then show ?case by simp
next
  case (Cons p ps)
  let ?h1 = "h(p := descended lr h p)"
  from wf_params_Cons[OF Cons.prems] obtain g where g: "grad (h p) = Some g"
    "shape (h g) = shape (h p)" "ctx (h g) = ctx (h p)" "p \<notin> set ps" by blast
  have step: "sgd_step lr p h = Inr ?h1" using sgd_step_eq[OF g(1-3)] .
  have "for_each (p # ps) (sgd_step lr) h = for_each ps (sgd_step lr) ?h1"
    by (simp only: for_each.simps step sum.case)
  also have "\<dots> = Inr (\<lambda>a. if a \<in> set ps then descended lr ?h1 a else ?h1 a)"
    by (rule Cons.IH[OF wf_params_step[OF Cons.prems]])
  also have "\<dots> = Inr (\<lambda>a. if a \<in> set (p # ps) then descended lr h a else h a)"
    using g(4) by (auto simp: fun_eq_iff descended_step[OF Cons.prems])
  finally show ?case .
qed

lemma SGD_eq:
  "wf_params h ps \<Longrightarrow> SGD ps lr h = Inr (\<lambda>a. if a \<in> set ps then descended lr h a else h a)"
  unfolding SGD_def by (rule sgd_loop_eq)

lemma split_and_load_nonempty:
  assumes "split_and_load X ctxs = Inr shards" "getitem (shape X) 0 = Inr n"
  shows "0 < n"
proof (rule ccontr)
  assume "\<not> 0 < n"
  then have "n = 0" by simp
  then have "split_and_load X ctxs = Inl ZeroDivisionError \<or> split_and_load X ctxs = Inl ValueError"
    using assms(2) by (simp add: split_and_load_def range3_def Let_def)
  then show False using assms(1) by auto
qed

lemma update_loop_eq:
  assumes "getitem (batch_data batch) 0 = Inr X" "getitem (shape X) 0 = Inr n" "0 < n"
    and "wf_params h (concat params)"
  shows "for_each params (update_step batch lr) h =
    Inr (\<lambda>a. if a \<in> set (concat params) then descended (lr / of_nat n) h a else h a)"
proof -
  have "update_step batch lr = (\<lambda>ps. for_each ps (sgd_step (lr / of_nat n)))"
    using assms(1-3) by (simp add: update_step_def SGD_def fun_eq_iff)
  then have "for_each params (update_step batch lr) h =
      for_each (concat params) (sgd_step (lr / of_nat n)) h"
    by (simp only: for_each_concat)
  then show ?thesis by (simp only: sgd_loop_eq[OF assms(4)])
qed

lemma train_batch_eq:
  assumes "train_batch_allreduce fwd_bwd batch params ctxs h = Inr h2"
    and "getitem (batch_data batch) 0 = Inr X" "getitem (shape X) 0 = Inr n"
    and "wf_params h2 (concat params)"
  shows "0 < n" and "train_batch fwd_bwd batch params ctxs lr h =
    Inr (\<lambda>a. if a \<in> set (concat params) then descended (lr / of_nat n) h2 a else h2 a)"
proof -
  obtain shards where "split_and_load X ctxs = Inr shards"
    using assms(1,2)
    by (auto simp: train_batch_allreduce_def train_batch_backward_def split: sum.splits)
  then show n: "0 < n" using assms(3) by (rule split_and_load_nonempty)
  show "train_batch fwd_bwd batch params ctxs lr h =
    Inr (\<lambda>a. if a \<in> set (concat params) then descended (lr / of_nat n) h2 a else h2 a)"
    by (simp only: train_batch_def assms(1) sum.case update_loop_eq[OF assms(2,3) n assms(4)])
qed

lemma elems_descended:
  fixes lr :: "'a::field"
  assumes "grad (h p) = Some g"
  shows "elems (descended (lr / of_nat n) h p) =
    map2 (\<lambda>w d. w - lr * d / of_nat n) (elems (h p)) (elems (h g))"
  using assms by (simp add: descended_def)

lemma nth_nth_in_concat:
  assumes "c < length params" "i < length (params ! c)"
  shows "params ! c ! i \<in> set (concat params)"
proof -
  have "params ! c \<in> set params" using assms(1) by simp
  moreover have "params ! c ! i \<in> set (params ! c)" using assms(2) by simp
  ultimately show ?thesis by auto
qed

text \<open>
  The aggregation of the gradients on the two example replicas: the gradient buffers
  \<open>[1, 1]\<close> and \<open>[2, 2]\<close> both become \<open>[3, 3]\<close>.
\<close>

lemma synced_example:
  "train_batch_allreduce (\<lambda>x h. h) minibatch [[0], [1]] two_gpus replicas = Inr replicas_synced"
proof -
  have l: "length two_gpus = 2" by (simp add: two_gpus_def)
  have d: "length two_gpus dvd (4::nat)" unfolding l by simp
  define X :: "real ndarray"
    where "X = \<lparr>ctx = cpu 0, shape = [4, 1], elems = [1, 2, 3, 4], grad = None\<rparr>"
  define Y :: "real ndarray"
    where "Y = \<lparr>ctx = cpu 0, shape = [4], elems = [0, 1, 0, 1], grad = None\<rparr>"
  have mb: "minibatch = \<lparr>batch_data = [X], batch_label = [Y]\<rparr>"
    by (simp add: minibatch_def X_def Y_def)
  have "shape X = 4 # [1]" "shape Y = 4 # []" "two_gpus \<noteq> []"
    by (simp_all add: X_def Y_def two_gpus_def)
  then obtain xs ys where xs: "split_and_load X two_gpus = Inr xs"
    and ys: "split_and_load Y two_gpus = Inr ys"
    using split_and_load_eq[of X 4 "[1]" two_gpus, OF _ _ d]
      split_and_load_eq[of Y 4 "[]" two_gpus, OF _ _ d] by simp
  have b: "train_batch_backward (\<lambda>x h. h) minibatch [[0], [1]] two_gpus replicas = Inr replicas"
    by (simp add: train_batch_backward_def mb getitem_def xs ys)
  have g: "comprehension (grad_of replicas [[0], [1]] 0) (range2 0 (length two_gpus)) = Inr [2, 3]"
    unfolding l by (simp add: range2_def grad_of_def getitem_def replicas_def upt_conv_Cons)
  have a: "allreduce replicas [2, 3] = Inr replicas_synced"
    by (simp add: allreduce_def range2_def sum_step_def bcast_step_def getitem_def iadd_def
      copyto_def copyto_ctx_def replicas_def replicas_synced_def upt_conv_Cons fun_eq_iff)
  have p0: "getitem [[0], [1::nat]] 0 = Inr [0]" by (simp add: getitem_def)
  have r: "range2 0 (length [0::nat]) = [0]" by (simp add: range2_def)
  have ap: "allreduce_param [[0], [1]] two_gpus 0 replicas = Inr replicas_synced"
    by (simp only: allreduce_param_def g sum.case a)
  show ?thesis
    by (simp only: train_batch_allreduce_def b sum.case p0 r for_each.simps ap)
qed

lemma wf_params_example: "wf_params replicas_synced (concat [[0], [1]])"
  by (simp add: wf_params_def replicas_synced_def)

section \<open>The claims\<close>

subsection \<open>All-reduce\<close>

text \<open>
  Claim C1. For a non-empty list of distinct, well-formed arrays of one shape, one per
  device, \<^verbatim>\<open>allreduce\<close> returns, and afterwards every array of the list holds the
  elementwise sum of the arrays the list held before, in exact arithmetic (the elements
  form a commutative monoid under addition). All arrays of the list then hold the same
  elements.
\<close>

theorem allreduce_sums:
  fixes h :: "'a::comm_monoid_add heap"
  assumes "data \<noteq> []" "distinct data"
    and "\<forall>a\<in>set data. shape (h a) = sh \<and> wf_ndarray (h a)"
  shows "\<exists>h'. allreduce h data = Inr h' \<and>
    (\<forall>a\<in>set data. elems (h' a) = elementwise_sum (prod_list sh) (map (\<lambda>b. elems (h b)) data))"
proof -
  let ?S = "sum_in_order (elems (h (hd data))) (map (\<lambda>b. elems (h b)) (tl data))"
  have sh: "\<forall>a\<in>set data. shape (h a) = sh" using assms(3) by simp
  have len: "\<forall>a\<in>set data. length (elems (h a)) = prod_list sh"
    using assms(3) by (simp add: wf_ndarray_def)
  have "hd data \<in> set data" using assms(1) by simp
  then have l0: "length (elems (h (hd data))) = prod_list sh" using len by blast
  have "set (tl data) \<subseteq> set data" using assms(1) by (cases data) auto
  then have lt: "\<forall>w\<in>set (map (\<lambda>b. elems (h b)) (tl data)). length w = prod_list sh"
    using len by auto
  have "?S = elementwise_sum (prod_list sh) (elems (h (hd data)) # map (\<lambda>b. elems (h b)) (tl data))"
    by (rule sum_in_order_elementwise[OF l0 lt])
  also have "elems (h (hd data)) # map (\<lambda>b. elems (h b)) (tl data) = map (\<lambda>b. elems (h b)) data"
    using assms(1) by (cases data) simp_all
  finally have S: "?S = elementwise_sum (prod_list sh) (map (\<lambda>b. elems (h b)) data)" .
  have "allreduce h data = Inr (\<lambda>a. if a \<in> set data then (h a)\<lparr>elems := ?S\<rparr> else h a)"
    by (rule allreduce_eq[OF assms(2) sh])
  then show ?thesis using S by simp
qed

theorem allreduce_sums_witness:
  "\<exists>h'. allreduce ones_twos [0, 1] = Inr h' \<and> elems (h' 0) = [3, 3] \<and> elems (h' 1) = [3, 3]"
proof -
  have a: "[0, 1::nat] \<noteq> []" "distinct [0, 1::nat]"
    "\<forall>a\<in>set [0, 1]. shape (ones_twos a) = [1, 2] \<and> wf_ndarray (ones_twos a)"
    by (simp_all add: ones_twos_def wf_ndarray_def)
  have s: "elementwise_sum (prod_list [1, 2]) (map (\<lambda>b. elems (ones_twos b)) [0, 1]) = [3, 3]"
    by (simp add: elementwise_sum_def ones_twos_def upt_conv_Cons)
  from allreduce_sums[OF a] obtain h' where "allreduce ones_twos [0, 1] = Inr h'"
    "\<forall>a\<in>set [0, 1]. elems (h' a) = [3, 3]"
    unfolding s by blast
  then show ?thesis by auto
qed

text \<open>
  Claim C7, as amended. The claim says the order of summation is unspecified, so that
  two runs may sum in different orders. The code fixes the order: the first loop adds
  \<open>data[1]\<close>, \<open>data[2]\<close>, ... to \<open>data[0]\<close> one after the other. For any addition on
  the elements, associative or not, the result in every array of the list is the sum
  accumulated in list order, a function of the input alone.
\<close>

theorem allreduce_in_list_order:
  fixes h :: "'a::plus heap"
  assumes "distinct data" "\<forall>a\<in>set data. shape (h a) = sh"
  shows "\<exists>h'. allreduce h data = Inr h' \<and>
    (\<forall>a\<in>set data. elems (h' a) =
        sum_in_order (elems (h (hd data))) (map (\<lambda>b. elems (h b)) (tl data)))"
  using allreduce_eq[OF assms] by simp

theorem allreduce_in_list_order_witness:
  "\<exists>h'. allreduce leaves [0, 1, 2] = Inr h' \<and>
     elems (h' 0) = [Add (Add (Leaf 0) (Leaf 1)) (Leaf 2)] \<and>
     elems (h' 1) = [Add (Add (Leaf 0) (Leaf 1)) (Leaf 2)] \<and>
     elems (h' 2) = [Add (Add (Leaf 0) (Leaf 1)) (Leaf 2)]"
proof -
  have a: "distinct [0, 1, 2::nat]" "\<forall>a\<in>set [0, 1, 2]. shape (leaves a) = [1]"
    by (simp_all add: leaves_def)
  have s: "sum_in_order (elems (leaves (hd [0, 1, 2]))) (map (\<lambda>b. elems (leaves b)) (tl [0, 1, 2]))
      = [Add (Add (Leaf 0) (Leaf 1)) (Leaf 2)]"
    by (simp add: sum_in_order_def leaves_def plus_sym_def)
  from allreduce_in_list_order[OF a] obtain h' where "allreduce leaves [0, 1, 2] = Inr h'"
    "\<forall>a\<in>set [0, 1, 2]. elems (h' a) = [Add (Add (Leaf 0) (Leaf 1)) (Leaf 2)]"
    unfolding s by blast
  then show ?thesis by auto
qed

text \<open>
  On three symbolic arrays the result is \<open>(g\<^sub>0 + g\<^sub>1) + g\<^sub>2\<close> on every device, and
  neither \<open>(g\<^sub>0 + g\<^sub>2) + g\<^sub>1\<close> nor \<open>g\<^sub>0 + (g\<^sub>1 + g\<^sub>2)\<close>.
\<close>

theorem allreduce_order_counterexample:
  "map_sum id (\<lambda>h'. map (\<lambda>a. elems (h' a)) [0, 1, 2]) (allreduce leaves [0, 1, 2]) =
     Inr [[Add (Add (Leaf 0) (Leaf 1)) (Leaf 2)],
          [Add (Add (Leaf 0) (Leaf 1)) (Leaf 2)],
          [Add (Add (Leaf 0) (Leaf 1)) (Leaf 2)]] \<and>
   map_sum id (\<lambda>h'. map (\<lambda>a. elems (h' a)) [0, 1, 2]) (allreduce leaves [0, 1, 2]) \<noteq>
     Inr [[Add (Add (Leaf 0) (Leaf 2)) (Leaf 1)],
          [Add (Add (Leaf 0) (Leaf 2)) (Leaf 1)],
          [Add (Add (Leaf 0) (Leaf 2)) (Leaf 1)]] \<and>
   map_sum id (\<lambda>h'. map (\<lambda>a. elems (h' a)) [0, 1, 2]) (allreduce leaves [0, 1, 2]) \<noteq>
     Inr [[Add (Leaf 0) (Add (Leaf 1) (Leaf 2))],
          [Add (Leaf 0) (Add (Leaf 1) (Leaf 2))],
          [Add (Leaf 0) (Add (Leaf 1) (Leaf 2))]]"
  by (simp add: allreduce_def range2_def sum_step_def bcast_step_def getitem_def iadd_def
      copyto_def copyto_ctx_def leaves_def plus_sym_def upt_conv_Cons)

text \<open>
  Claim C9. On a list of one array both loops of \<^verbatim>\<open>allreduce\<close> range over the empty
  \<^verbatim>\<open>range(1, 1)\<close>, so no addition and no copy is executed, and \<^verbatim>\<open>allreduce\<close>
  returns the heap it was given, whatever the array holds and whatever the elements
  are.
\<close>

theorem allreduce_single_device:
  "range2 1 (length [a]) = [] \<and> allreduce h [a] = Inr h"
  by (simp add: allreduce_def range2_def)



subsection \<open>Splitting a batch over the devices\<close>

text \<open>
  Claim C2, as amended. For a well-formed batch of \<open>n \<ge> 1\<close> rows and \<open>k \<ge> 1\<close> devices
  with \<open>k\<close> dividing \<open>n\<close>, \<^verbatim>\<open>split_and_load\<close> returns \<open>k\<close> shards; shard \<open>i\<close> is
  on device \<open>i\<close>, has \<open>n div k\<close> rows, and its rows are the rows \<open>i * (n div k)\<close> up
  to \<open>(i + 1) * (n div k) - 1\<close> of the batch; the shards concatenated in device order are
  the batch. (For \<open>n = 0\<close> the call raises, see the counterexample.)
\<close>

theorem split_and_load_shards:
  assumes "wf_ndarray data" "shape data = n # rest" "ctxs \<noteq> []" "length ctxs dvd n" "0 < n"
  shows "\<exists>shards. split_and_load data ctxs = Inr shards \<and> length shards = length ctxs \<and>
    (\<forall>i<length ctxs.
       ctx (shards ! i) = ctxs ! i \<and>
       shape (shards ! i) = (n div length ctxs) # rest \<and>
       wf_ndarray (shards ! i) \<and>
       rows (shards ! i) = map (row data) [i * (n div length ctxs)..<(i + 1) * (n div length ctxs)]) \<and>
    concat (map rows shards) = rows data \<and>
    concat (map elems shards) = elems data"
proof -
  let ?k = "length ctxs" and ?s = "n div length ctxs"
  let ?shards = "map (shard_of data ctxs ?s) [0..<?k]"
  have n: "n = ?s * ?k" using assms(4) by simp
  have "split_and_load data ctxs = Inr ?shards"
    by (rule split_and_load_eq[OF assms(2-5)])
  moreover have "length ?shards = ?k" by simp
  moreover have "ctx (?shards ! i) = ctxs ! i \<and>
       shape (?shards ! i) = ?s # rest \<and>
       wf_ndarray (?shards ! i) \<and>
       rows (?shards ! i) = map (row data) [i * ?s..<(i + 1) * ?s]" if "i < ?k" for i
    using that assms(2) wf_shard_of[OF assms(1,2) n that, of ctxs]
    by (simp add: rows_shard_of) (simp add: shard_of_def)
  moreover have "concat (map rows ?shards) = rows data"
    by (rule concat_rows_shards[OF assms(2) n])
  moreover have "concat (map elems ?shards) = elems data"
    by (rule concat_elems_shards[OF assms(1,2) n])
  ultimately show ?thesis by blast
qed

theorem split_and_load_shards_witness:
  "\<exists>shards. split_and_load batch44 two_gpus = Inr shards \<and> length shards = 2 \<and>
     map ctx shards = [gpu 0, gpu 1] \<and>
     map shape shards = [[2, 4], [2, 4]] \<and>
     rows (shards ! 0) = [[0, 1, 2, 3], [4, 5, 6, 7]] \<and>
     rows (shards ! 1) = [[8, 9, 10, 11], [12, 13, 14, 15]] \<and>
     concat (map rows shards) = rows batch44 \<and>
     concat (map elems shards) = elems batch44"
proof -
  have l: "length two_gpus = 2" "(4::nat) div 2 = 2" by (simp_all add: two_gpus_def)
  have a: "wf_ndarray batch44" "shape batch44 = 4 # [4]" "two_gpus \<noteq> []"
    "length two_gpus dvd (4::nat)" "0 < (4::nat)"
    unfolding l by (simp_all add: wf_ndarray_def batch44_def two_gpus_def)
  have r: "map (row batch44) [0 * 2..<(0 + 1) * 2] = [[0, 1, 2, 3], [4, 5, 6, 7]]"
    "map (row batch44) [1 * 2..<(1 + 1) * 2] = [[8, 9, 10, 11], [12, 13, 14, 15]]"
    by (simp_all add: row_def row_size_def batch44_def upt_conv_Cons)
  from split_and_load_shards[OF a] obtain shards where s:
    "split_and_load batch44 two_gpus = Inr shards" "length shards = 2"
    "\<forall>i<2. ctx (shards ! i) = two_gpus ! i \<and> shape (shards ! i) = [2, 4] \<and>
       wf_ndarray (shards ! i) \<and>
       rows (shards ! i) = map (row batch44) [i * 2..<(i + 1) * 2]"
    "concat (map rows shards) = rows batch44"
    "concat (map elems shards) = elems batch44"
    unfolding l by blast
  have "(0::nat) < 2" "(1::nat) < 2" by simp_all
  with s(3) have
    s0: "ctx (shards ! 0) = two_gpus ! 0 \<and> shape (shards ! 0) = [2, 4] \<and>
       wf_ndarray (shards ! 0) \<and> rows (shards ! 0) = map (row batch44) [0 * 2..<(0 + 1) * 2]" and
    s1: "ctx (shards ! 1) = two_gpus ! 1 \<and> shape (shards ! 1) = [2, 4] \<and>
       wf_ndarray (shards ! 1) \<and> rows (shards ! 1) = map (row batch44) [1 * 2..<(1 + 1) * 2]"
    by blast+
  obtain x y where xy: "shards = [x, y]"
    using s(2) by (cases shards; cases "tl shards"; cases "tl (tl shards)") auto
  have c: "map ctx shards = [gpu 0, gpu 1]" "map shape shards = [[2, 4], [2, 4]]"
    "rows (shards ! 0) = [[0, 1, 2, 3], [4, 5, 6, 7]]"
    "rows (shards ! 1) = [[8, 9, 10, 11], [12, 13, 14, 15]]"
    using s0 s1 unfolding r by (simp_all add: xy two_gpus_def)
  show ?thesis
    by (rule exI[of _ shards]) (simp only: s(1,2,4,5) c simp_thms)
qed

text \<open>
  An empty batch is divisible by every number of devices, and \<^verbatim>\<open>split_and_load\<close>
  raises \<^verbatim>\<open>ValueError\<close> on it: the step of \<^verbatim>\<open>range(0, n+1, n//k)\<close> is zero.
\<close>

theorem split_and_load_empty_batch_counterexample:
  "wf_ndarray empty_batch \<and> shape empty_batch = [0, 4] \<and> length two_gpus dvd (0::nat) \<and>
   split_and_load empty_batch two_gpus = Inl ValueError"
  by (simp add: wf_ndarray_def empty_batch_def two_gpus_def split_and_load_def getitem_def
      range3_def)

text \<open>
  Claim C3. When the number of devices \<open>k \<ge> 1\<close> does not divide the number of rows,
  \<^verbatim>\<open>split_and_load\<close> raises \<^verbatim>\<open>AssertionError\<close>.
\<close>

theorem split_and_load_indivisible:
  assumes "shape data = n # rest" "ctxs \<noteq> []" "\<not> length ctxs dvd n"
  shows "split_and_load data ctxs = Inl AssertionError"
proof -
  have "n div length ctxs * length ctxs \<noteq> n"
  proof
    assume e: "n div length ctxs * length ctxs = n"
    have "length ctxs dvd n div length ctxs * length ctxs" by simp
    then have "length ctxs dvd n" by (simp only: e)
    then show False using assms(3) by simp
  qed
  then show ?thesis
    using assms(1,2) by (simp add: split_and_load_def getitem_def)
qed

theorem split_and_load_indivisible_witness:
  "shape batch44 = [4, 4] \<and> \<not> length [gpu 0, gpu 1, gpu 2] dvd (4::nat) \<and>
   split_and_load batch44 [gpu 0, gpu 1, gpu 2] = Inl AssertionError"
proof -
  have l: "length [gpu 0, gpu 1, gpu 2] = 3" by simp
  have a: "shape batch44 = 4 # [4]" "[gpu 0, gpu 1, gpu 2] \<noteq> []"
    "\<not> length [gpu 0, gpu 1, gpu 2] dvd (4::nat)"
    unfolding l by (simp_all add: batch44_def)
  show ?thesis using split_and_load_indivisible[OF a] a by simp
qed

text \<open>
  Claim C6, as amended. For a batch of \<open>n \<ge> 1\<close> rows and \<open>k \<ge> 1\<close> devices with \<open>k\<close>
  dividing \<open>n\<close>, \<^verbatim>\<open>split_and_load\<close> returns shards and raises nothing. (The claim
  includes \<open>n = 0\<close>, where the call raises.)
\<close>

theorem split_and_load_succeeds:
  assumes "shape data = n # rest" "ctxs \<noteq> []" "length ctxs dvd n" "0 < n"
  shows "\<exists>shards. split_and_load data ctxs = Inr shards"
  using split_and_load_eq[OF assms] by blast

theorem split_and_load_succeeds_witness:
  "shape batch44 = [4, 4] \<and> length two_gpus dvd (4::nat) \<and>
   (\<exists>shards. split_and_load batch44 two_gpus = Inr shards)"
proof -
  have l: "length two_gpus = 2" by (simp add: two_gpus_def)
  have a: "shape batch44 = 4 # [4]" "two_gpus \<noteq> []" "length two_gpus dvd (4::nat)" "0 < (4::nat)"
    unfolding l by (simp_all add: batch44_def two_gpus_def)
  show ?thesis using split_and_load_succeeds[OF a] a by simp
qed

text \<open>
  With one device and an empty batch the assertion passes and \<^verbatim>\<open>range\<close> raises
  \<^verbatim>\<open>ValueError\<close>.
\<close>

theorem split_and_load_one_device_empty_counterexample:
  "shape empty_batch = [0, 4] \<and> length [gpu 0] dvd (0::nat) \<and>
   split_and_load empty_batch [gpu 0] = Inl ValueError"
  by (simp add: empty_batch_def split_and_load_def getitem_def range3_def)

subsection \<open>The update of the parameters\<close>



text \<open>
  Claim C5. If, after the aggregation of the gradients, the replicas of parameter \<open>i\<close>
  on all devices hold the same elements \<open>w\<close> and their gradient buffers hold the same
  elements \<open>d\<close>, then after the update of \<^verbatim>\<open>train_batch\<close> the replicas of
  parameter \<open>i\<close> on all devices hold the same elements again (in exact arithmetic).
\<close>

theorem replicas_stay_identical:
  fixes lr :: "'a::field"
  assumes "train_batch_allreduce fwd_bwd batch params ctxs h = Inr h2"
    and "getitem (batch_data batch) 0 = Inr X" "shape X = n # rest"
    and "wf_params h2 (concat params)"
    and "\<forall>c<length params. i < length (params ! c) \<and> elems (h2 (params ! c ! i)) = w \<and>
           (\<exists>g. grad (h2 (params ! c ! i)) = Some g \<and> elems (h2 g) = d)"
  shows "\<exists>h'. train_batch fwd_bwd batch params ctxs lr h = Inr h' \<and>
     (\<forall>c<length params. elems (h' (params ! c ! i)) = map2 (\<lambda>w d. w - lr * d / of_nat n) w d)"
proof -
  let ?h' = "\<lambda>a. if a \<in> set (concat params) then descended (lr / of_nat n) h2 a else h2 a"
  have n: "getitem (shape X) 0 = Inr n" using assms(3) by (simp add: getitem_def)
  have t: "train_batch fwd_bwd batch params ctxs lr h = Inr ?h'"
    by (rule train_batch_eq(2)[OF assms(1,2) n assms(4)])
  have "elems (?h' (params ! c ! i)) = map2 (\<lambda>w d. w - lr * d / of_nat n) w d"
    if "c < length params" for c
  proof -
    from assms(5) that obtain g where g: "i < length (params ! c)"
      "elems (h2 (params ! c ! i)) = w" "grad (h2 (params ! c ! i)) = Some g" "elems (h2 g) = d"
      by blast
    have "params ! c ! i \<in> set (concat params)" using that g(1) by (rule nth_nth_in_concat)
    then show ?thesis using g(2,4) by (simp add: elems_descended[where h = h2, OF g(3)])
  qed
  then have "\<forall>c<length params.
      elems (?h' (params ! c ! i)) = map2 (\<lambda>w d. w - lr * d / of_nat n) w d"
    by blast
  with t show ?thesis by blast
qed

theorem replicas_stay_identical_witness:
  "\<exists>h'. train_batch (\<lambda>x h. h) minibatch [[0], [1]] two_gpus 2 replicas = Inr h' \<and>
     elems (h' 0) = elems (h' 1)"
proof -
  have X: "getitem (batch_data minibatch) 0 =
      Inr \<lparr>ctx = cpu 0, shape = [4, 1], elems = [1, 2, 3, 4], grad = None\<rparr>"
    "shape \<lparr>ctx = cpu 0, shape = [4, 1], elems = [1, 2, 3, 4::real], grad = None\<rparr> = 4 # [1]"
    by (simp_all add: minibatch_def getitem_def)
  have same: "\<forall>c<length [[0], [1::nat]]. 0 < length ([[0], [1]] ! c) \<and>
      elems (replicas_synced ([[0], [1]] ! c ! 0)) = [10, 20] \<and>
      (\<exists>g. grad (replicas_synced ([[0], [1]] ! c ! 0)) = Some g \<and> elems (replicas_synced g) = [3, 3])"
    by (simp add: replicas_synced_def less_Suc_eq)
  from replicas_stay_identical[OF synced_example X wf_params_example same, of 2]
  obtain h' where h': "train_batch (\<lambda>x h. h) minibatch [[0], [1]] two_gpus 2 replicas = Inr h'"
    "\<forall>c<length [[0], [1::nat]]. elems (h' ([[0], [1]] ! c ! 0)) =
       map2 (\<lambda>w d. w - 2 * d / of_nat 4) [10, 20] [3, 3]"
    by blast
  from h'(2) have "elems (h' 0) = elems (h' 1)" by (simp add: less_Suc_eq)
  then show ?thesis using h'(1) by blast
qed

subsection \<open>The examples of the notebook\<close>

text \<open>
  Claim C8. Any batch of four rows is split over two devices into shards of two rows
  each, and \<^verbatim>\<open>allreduce\<close> on the arrays \<open>[[1, 1]]\<close> on \<^verbatim>\<open>gpu(0)\<close> and
  \<open>[[2, 2]]\<close> on \<^verbatim>\<open>gpu(1)\<close> leaves \<open>[[3, 3]]\<close> in both, each on its device.
\<close>

theorem notebook_examples:
  "map_sum id (map (\<lambda>s. hd (shape s))) (split_and_load (data\<lparr>shape := 4 # rest\<rparr>) [c0, c1]) = Inr [2, 2] \<and>
   map_sum id (\<lambda>h'. map h' [0, 1]) (allreduce ones_twos [0, 1]) =
     Inr [\<lparr>ctx = gpu 0, shape = [1, 2], elems = [3, 3], grad = None\<rparr>,
          \<lparr>ctx = gpu 1, shape = [1, 2], elems = [3, 3], grad = None\<rparr>]"
proof -
  have l: "length [c0, c1] = 2" by simp
  have d: "length [c0, c1] dvd (4::nat)" unfolding l by simp
  have "split_and_load (data\<lparr>shape := 4 # rest\<rparr>) [c0, c1] =
    Inr (map (shard_of (data\<lparr>shape := 4 # rest\<rparr>) [c0, c1] (4 div length [c0, c1])) [0..<length [c0, c1]])"
    by (rule split_and_load_eq[where rest = rest, OF _ _ d]) simp_all
  with l have "split_and_load (data\<lparr>shape := 4 # rest\<rparr>) [c0, c1] =
    Inr (map (shard_of (data\<lparr>shape := 4 # rest\<rparr>) [c0, c1] (4 div 2)) [0..<2])"
    by (simp only:)
  then have 1: "map_sum id (map (\<lambda>s. hd (shape s))) (split_and_load (data\<lparr>shape := 4 # rest\<rparr>) [c0, c1]) = Inr [2, 2]"
    by (simp add: shard_of_def upt_conv_Cons)
  have 2: "map_sum id (\<lambda>h'. map h' [0, 1]) (allreduce ones_twos [0, 1]) =
     Inr [\<lparr>ctx = gpu 0, shape = [1, 2], elems = [3, 3], grad = None\<rparr>,
          \<lparr>ctx = gpu 1, shape = [1, 2], elems = [3, 3], grad = None\<rparr>]"
    by (simp add: allreduce_def range2_def sum_step_def bcast_step_def getitem_def iadd_def
      copyto_def copyto_ctx_def ones_twos_def upt_conv_Cons)
  from 1 2 show ?thesis by (rule conjI)
qed

end
